theory Spec2Isabelle
  imports Complex_Main "HOL-Library.Multiset" "HOL-Library.Sublist"
begin

section \<open>Python values used by the script\<close>

text \<open>
  The script \<^verbatim>\<open>amadeus_meteo_v3.py\<close> computes with Python floats. A float is modelled
  as a real number or one of the three special values; rounding of the finite values is
  not modelled (finite floats are idealised as reals). The comparison of two floats is
  the one of IEEE 754: every comparison with NaN is false.
\<close>

datatype pyfloat = Fin real | PInf | NInf | NaN

fun lt_f :: "pyfloat \<Rightarrow> pyfloat \<Rightarrow> bool" where
  "lt_f (Fin a) (Fin b) = (a < b)"
| "lt_f (Fin a) PInf = True"
| "lt_f (Fin a) NInf = False"
| "lt_f (Fin a) NaN = False"
| "lt_f PInf b = False"
| "lt_f NInf (Fin b) = True"
| "lt_f NInf PInf = True"
| "lt_f NInf NInf = False"
| "lt_f NInf NaN = False"
| "lt_f NaN b = False"

fun ge_f :: "pyfloat \<Rightarrow> pyfloat \<Rightarrow> bool" where
  "ge_f (Fin a) (Fin b) = (b \<le> a)"
| "ge_f (Fin a) PInf = False"
| "ge_f (Fin a) NInf = True"
| "ge_f (Fin a) NaN = False"
| "ge_f PInf (Fin b) = True"
| "ge_f PInf PInf = True"
| "ge_f PInf NInf = True"
| "ge_f PInf NaN = False"
| "ge_f NInf (Fin b) = False"
| "ge_f NInf PInf = False"
| "ge_f NInf NInf = True"
| "ge_f NInf NaN = False"
| "ge_f NaN b = False"

text \<open>The exceptions the modelled code can raise.\<close>

datatype py_error = ZeroDivisionError | ValueError | TypeError

text \<open>
  The builtin \<^verbatim>\<open>sum(iterable)\<close> starts from the integer 0 and adds the items from
  left to right. Summing booleans counts the true ones.
\<close>

definition py_sum :: "real list \<Rightarrow> real" where
  "py_sum xs = foldl (+) 0 xs"

definition py_sum_bool :: "bool list \<Rightarrow> int" where
  "py_sum_bool bs = foldl (\<lambda>acc b. acc + (if b then 1 else 0)) 0 bs"

text \<open>True division \<^verbatim>\<open>a / b\<close> of a float by an integer raises on a zero divisor.\<close>

definition py_truediv :: "real \<Rightarrow> int \<Rightarrow> py_error + real" where
  "py_truediv a b = (if b = 0 then Inl ZeroDivisionError else Inr (a / real_of_int b))"

section \<open>Weather classification\<close>

text \<open>
  One row of the weather table built by \<^verbatim>\<open>last_three_years_weather\<close>: the keys
  \<^verbatim>\<open>"Year"\<close>, \<^verbatim>\<open>"Max C"\<close>, \<^verbatim>\<open>"Min C"\<close> and \<^verbatim>\<open>"Precip mm"\<close> of the dictionary
  (the degree sign of the source's key names is dropped).
\<close>

record weather_row =
  Year :: int
  Max_C :: real
  Min_C :: real
  Precip_mm :: real

text \<open>
  \<^verbatim>\<open>
  def classify_weather(rows):
      rain_flag = sum(r["Precip mm"] > 0 for r in rows) >= 2
      avg_temp = sum((r["Max C"] + r["Min C"]) / 2 for r in rows) / len(rows) if rows else float("nan")
      return rain_flag, avg_temp
  \<close>
\<close>

definition classify_weather :: "weather_row list \<Rightarrow> py_error + (bool \<times> pyfloat)" where
  "classify_weather rows =
     (let rain_flag = (py_sum_bool (map (\<lambda>r. Precip_mm r > 0) rows) \<ge> 2) in
      if rows \<noteq> [] then
        (case py_truediv (py_sum (map (\<lambda>r. (Max_C r + Min_C r) / 2) rows)) (int (length rows)) of
           Inl e \<Rightarrow> Inl e
         | Inr avg_temp \<Rightarrow> Inr (rain_flag, Fin avg_temp))
      else Inr (rain_flag, NaN))"

text \<open>
  The category names of \<^verbatim>\<open>CATEGORY_LIST\<close>, in the order of the source.
\<close>

datatype category = Tours | Museums | Restaurants | Wine | Historical | Sightseeing

text \<open>
  \<^verbatim>\<open>
  def preset_categories(rain, avg_t):
      if rain:
          return ["Museums", "Restaurants", "Historical", "Sightseeing"]
      if avg_t < 15:
          return ["Museums", "Historical", "Tours", "Sightseeing"]
      return ["Wine", "Historical"]
  \<close>
\<close>

definition preset_categories :: "bool \<Rightarrow> pyfloat \<Rightarrow> category list" where
  "preset_categories rain avg_t =
     (if rain then [Museums, Restaurants, Historical, Sightseeing]
      else if lt_f avg_t (Fin 15) then [Museums, Historical, Tours, Sightseeing]
      else [Wine, Historical])"

section \<open>Activities\<close>

text \<open>
  A value decoded from the JSON of the activities service. The fields \<^verbatim>\<open>rating\<close>
  and \<^verbatim>\<open>amount\<close> of an activity are passed to the builtin \<^verbatim>\<open>float\<close>, which accepts
  numbers, booleans and strings, so their values are kept as JSON values.
\<close>

datatype json =
    JNull
  | JBool bool
  | JNum pyfloat
  | JStr string
  | JArr "json list"
  | JObj "(string \<times> json) list"

text \<open>Truth value of a Python object: what \<^verbatim>\<open>x or y\<close> tests. NaN is true.\<close>

fun truthy :: "json \<Rightarrow> bool" where
  "truthy JNull = False"
| "truthy (JBool b) = b"
| "truthy (JNum f) = (f \<noteq> Fin 0)"
| "truthy (JStr s) = (s \<noteq> [])"
| "truthy (JArr xs) = (xs \<noteq> [])"
| "truthy (JObj kvs) = (kvs \<noteq> [])"

definition py_or :: "json \<Rightarrow> json \<Rightarrow> json" where
  "py_or x y = (if truthy x then x else y)"

text \<open>
  The builtin \<^verbatim>\<open>float(x)\<close>. Its reading of a string is not code of the script: it is
  the parameter \<open>pf\<close>, which returns \<open>None\<close> where Python raises ValueError.
\<close>

fun py_float :: "(string \<Rightarrow> pyfloat option) \<Rightarrow> json \<Rightarrow> py_error + pyfloat" where
  "py_float pf JNull = Inl TypeError"
| "py_float pf (JBool b) = Inr (Fin (if b then 1 else 0))"
| "py_float pf (JNum f) = Inr f"
| "py_float pf (JStr s) = (case pf s of None \<Rightarrow> Inl ValueError | Some f \<Rightarrow> Inr f)"
| "py_float pf (JArr xs) = Inl TypeError"
| "py_float pf (JObj kvs) = Inl TypeError"

text \<open>\<^verbatim>\<open>d.get(key, default)\<close> on a field that may be absent.\<close>

definition get_or :: "'a option \<Rightarrow> 'a \<Rightarrow> 'a" where
  "get_or field dflt = (case field of None \<Rightarrow> dflt | Some v \<Rightarrow> v)"

text \<open>
  An activity is a dictionary; each key the script reads may be absent. The name and the
  description are strings, the price is a dictionary of its own.
\<close>

record price_obj =
  amount :: "json option"
  currencyCode :: "string option"

record activity =
  name :: "string option"
  shortDescription :: "string option"
  rating :: "json option"
  price :: "price_obj option"

definition empty_price :: price_obj where
  "empty_price = \<lparr>amount = None, currencyCode = None\<rparr>"

subsection \<open>Category filter\<close>

text \<open>The table \<^verbatim>\<open>KEYWORDS\<close>.\<close>

fun KEYWORDS :: "category \<Rightarrow> string list" where
  "KEYWORDS Tours = [''tour'']"
| "KEYWORDS Museums = [''museum'']"
| "KEYWORDS Restaurants = [''restaurant'', ''food'']"
| "KEYWORDS Wine = [''wine'']"
| "KEYWORDS Historical = [''castle'', ''palace'', ''cathedral'', ''ruins'']"
| "KEYWORDS Sightseeing = [''sightseeing'', ''view'', ''panorama'']"

text \<open>
  \<^verbatim>\<open>kw_list = [kw for cat in active_cats for kw in KEYWORDS[cat]] if active_cats else []\<close>
\<close>

definition kw_list_of :: "category list \<Rightarrow> string list" where
  "kw_list_of active = (if active \<noteq> [] then concat (map KEYWORDS active) else [])"

text \<open>
  \<^verbatim>\<open>str.lower()\<close>, on strings of ASCII characters: the letters A to Z are mapped to
  a to z, every other character is kept.
\<close>

definition lower_chr :: "char \<Rightarrow> char" where
  "lower_chr c =
     (let n = (of_char c :: nat) in if 65 \<le> n \<and> n \<le> 90 then char_of (n + 32) else c)"

definition lower_str :: "string \<Rightarrow> string" where
  "lower_str s = map lower_chr s"

text \<open>The substring test \<^verbatim>\<open>kw in text\<close>.\<close>

fun startswith :: "'a list \<Rightarrow> 'a list \<Rightarrow> bool" where
  "startswith s [] = True"
| "startswith [] (c # cs) = False"
| "startswith (x # xs) (c # cs) = (x = c \<and> startswith xs cs)"

fun str_contains :: "'a list \<Rightarrow> 'a list \<Rightarrow> bool" where
  "str_contains kw [] = (kw = [])"
| "str_contains kw (x # xs) = (startswith (x # xs) kw \<or> str_contains kw xs)"

text \<open>The builtin \<^verbatim>\<open>any\<close>.\<close>

fun py_any :: "bool list \<Rightarrow> bool" where
  "py_any [] = False"
| "py_any (b # bs) = (b \<or> py_any bs)"

text \<open>
  \<^verbatim>\<open>(a.get("name", "") + " " + a.get("shortDescription", "")).lower()\<close>
\<close>

definition search_text :: "activity \<Rightarrow> string" where
  "search_text a = lower_str (get_or (name a) [] @ '' '' @ get_or (shortDescription a) [])"

text \<open>
  \<^verbatim>\<open>
  acts_filtered = [a for a in acts_raw
                   if not kw_list or any(kw in (...).lower() for kw in kw_list)]
  \<close>
\<close>

definition acts_filtered :: "string list \<Rightarrow> activity list \<Rightarrow> activity list" where
  "acts_filtered kw_list acts_raw =
     filter (\<lambda>a. kw_list = [] \<or> py_any (map (\<lambda>kw. str_contains kw (search_text a)) kw_list))
       acts_raw"

subsection \<open>Sorting\<close>

text \<open>The options of the sort selector, for "None", "Rating down", "Rating up",
  "Price down" and "Price up"; \<open>reverse_of\<close> is the test for the down arrow in the option
  and \<open>is_rating\<close> the test for the word Rating.\<close>

datatype sort_order = SortNone | RatingDown | RatingUp | PriceDown | PriceUp

fun reverse_of :: "sort_order \<Rightarrow> bool" where
  "reverse_of RatingDown = True"
| "reverse_of PriceDown = True"
| "reverse_of ord = False"

fun is_rating :: "sort_order \<Rightarrow> bool" where
  "is_rating RatingDown = True"
| "is_rating RatingUp = True"
| "is_rating ord = False"

text \<open>\<^verbatim>\<open>key=lambda a: float(a.get("rating") or -1)\<close>\<close>

definition rating_key :: "(string \<Rightarrow> pyfloat option) \<Rightarrow> activity \<Rightarrow> py_error + pyfloat" where
  "rating_key pf a = py_float pf (py_or (get_or (rating a) JNull) (JNum (Fin (- 1))))"

text \<open>\<^verbatim>\<open>key=lambda a: float(a.get("price", {}).get("amount", float("inf")))\<close>\<close>

definition price_key :: "(string \<Rightarrow> pyfloat option) \<Rightarrow> activity \<Rightarrow> py_error + pyfloat" where
  "price_key pf a = py_float pf (get_or (amount (get_or (price a) empty_price)) (JNum PInf))"

text \<open>
  \<^verbatim>\<open>list.sort(key=..., reverse=...)\<close>: the keys are computed first, one for each item
  in order, and an exception of the key function leaves the sort. The items are then
  sorted by their keys with a stable sort that compares keys with \<open><\<close> only; with
  \<^verbatim>\<open>reverse=True\<close> the list is reversed before and after the sort, which keeps items of
  equal keys in their input order. The stable sort is written as insertion from the
  right: on keys that \<open><\<close> orders totally, the result of a stable sort does not depend
  on the algorithm. With a NaN among the keys the result of Python's merge sort depends
  on its runs; the properties below are stated for keys without NaN.
\<close>

fun keyed :: "('a \<Rightarrow> py_error + pyfloat) \<Rightarrow> 'a list \<Rightarrow> py_error + (pyfloat \<times> 'a) list" where
  "keyed key [] = Inr []"
| "keyed key (x # xs) =
     (case key x of
        Inl e \<Rightarrow> Inl e
      | Inr k \<Rightarrow> (case keyed key xs of Inl e \<Rightarrow> Inl e | Inr ks \<Rightarrow> Inr ((k, x) # ks)))"

fun insort_lt :: "(pyfloat \<times> 'a) \<Rightarrow> (pyfloat \<times> 'a) list \<Rightarrow> (pyfloat \<times> 'a) list" where
  "insort_lt x [] = [x]"
| "insort_lt x (y # ys) = (if lt_f (fst y) (fst x) then y # insort_lt x ys else x # y # ys)"

definition stable_sort :: "(pyfloat \<times> 'a) list \<Rightarrow> (pyfloat \<times> 'a) list" where
  "stable_sort kxs = foldr insort_lt kxs []"

definition list_sort ::
  "('a \<Rightarrow> py_error + pyfloat) \<Rightarrow> bool \<Rightarrow> 'a list \<Rightarrow> py_error + 'a list" where
  "list_sort key reverse xs =
     (case keyed key xs of
        Inl e \<Rightarrow> Inl e
      | Inr kxs \<Rightarrow>
          Inr (map snd (if reverse then rev (stable_sort (rev kxs)) else stable_sort kxs)))"

text \<open>
  \<^verbatim>\<open>
  if sort_order != "None":
      reverse = "down arrow" in sort_order
      if "Rating" in sort_order:
          acts_filtered.sort(key=lambda a: float(a.get("rating") or -1), reverse=reverse)
      else:
          acts_filtered.sort(key=lambda a: float(a.get("price", {}).get("amount", float("inf"))),
                             reverse=reverse)
  \<close>
\<close>

definition sort_activities ::
  "(string \<Rightarrow> pyfloat option) \<Rightarrow> sort_order \<Rightarrow> activity list \<Rightarrow> py_error + activity list" where
  "sort_activities pf ord acts =
     (if ord \<noteq> SortNone then
        (let reverse = reverse_of ord in
         if is_rating ord then list_sort (rating_key pf) reverse acts
         else list_sort (price_key pf) reverse acts)
      else Inr acts)"

text \<open>The key function that a sort order passes to \<^verbatim>\<open>list.sort\<close>.\<close>

definition sort_key ::
  "(string \<Rightarrow> pyfloat option) \<Rightarrow> sort_order \<Rightarrow> activity \<Rightarrow> py_error + pyfloat" where
  "sort_key pf ord = (if is_rating ord then rating_key pf else price_key pf)"

subsection \<open>Pagination\<close>

text \<open>
  A slice \<^verbatim>\<open>xs[i:j]\<close> of a list: a negative index counts from the end, and both
  indices are cut to the length of the list.
\<close>

definition slice_index :: "int \<Rightarrow> nat \<Rightarrow> nat" where
  "slice_index i n = (if i < 0 then nat (max 0 (i + int n)) else min (nat i) n)"

definition py_slice :: "'a list \<Rightarrow> int \<Rightarrow> int \<Rightarrow> 'a list" where
  "py_slice xs i j =
     (let lo = slice_index i (length xs); hi = slice_index j (length xs)
      in take (hi - lo) (drop lo xs))"

text \<open>
  \<^verbatim>\<open>
  total = len(acts_filtered)
  pages = max(1, math.ceil(total / page_size))
  st.session_state.page = max(1, min(st.session_state.page, pages))
  page = st.session_state.page
  page_slice = acts_filtered[(page - 1) * page_size : page * page_size]
  \<close>
  The quotient \<^verbatim>\<open>total / page_size\<close> is a float in the source; it is the exact
  quotient here. The result is the number of pages, the page and the slice.
\<close>

definition total_pages :: "'a list \<Rightarrow> int \<Rightarrow> py_error + int" where
  "total_pages acts page_size =
     (case py_truediv (real (length acts)) page_size of
        Inl e \<Rightarrow> Inl e
      | Inr q \<Rightarrow> Inr (max 1 (ceiling q)))"

definition paginate :: "'a list \<Rightarrow> int \<Rightarrow> int \<Rightarrow> py_error + (int \<times> int \<times> 'a list)" where
  "paginate acts page_size requested =
     (case total_pages acts page_size of
        Inl e \<Rightarrow> Inl e
      | Inr pages \<Rightarrow>
          (let page = max 1 (min requested pages)
           in Inr (pages, page, py_slice acts ((page - 1) * page_size) (page * page_size))))"

text \<open>The page slice that a request for a page shows.\<close>

definition page_slice :: "'a list \<Rightarrow> int \<Rightarrow> int \<Rightarrow> 'a list" where
  "page_slice acts page_size requested =
     (case paginate acts page_size requested of
        Inl e \<Rightarrow> []
      | Inr (pages, pg, items) \<Rightarrow> items)"

section \<open>Session state and one run of the script\<close>

text \<open>
  The keys of \<^verbatim>\<open>st.session_state\<close> that the script uses. The four keys with a
  default exist from the first run on; \<^verbatim>\<open>cat_filter\<close> exists once the category
  widget has been built and \<^verbatim>\<open>cat_filter_new\<close> only while a preset waits for the
  next run.
\<close>

record session =
  page :: int
  have_results :: bool
  active_cats :: "category list"
  use_preset :: bool
  cat_filter :: "category list option"
  cat_filter_new :: "category list option"








text \<open>
  \<^verbatim>\<open>
  if weather_rows:
      rain_flag, avg_temp = classify_weather(weather_rows)
  else:
      rain_flag, avg_temp = False, float("nan")
  \<close>
\<close>

definition weather_verdict :: "weather_row list \<Rightarrow> py_error + (bool \<times> pyfloat)" where
  "weather_verdict rows = (if rows \<noteq> [] then classify_weather rows else Inr (False, NaN))"





section \<open>Example data\<close>

text \<open>The two activities of the filter scenario of the specification.\<close>

definition vineyard_tour :: activity where
  "vineyard_tour =
     \<lparr>name = Some ''Vineyard Tour'', shortDescription = Some ''Taste local wine'',
      rating = None, price = None\<rparr>"

definition city_museum :: activity where
  "city_museum =
     \<lparr>name = Some ''City Museum'', shortDescription = None, rating = None, price = None\<rparr>"

text \<open>Twelve items, for the pagination scenario of the specification.\<close>

definition twelve :: "nat list" where
  "twelve = [1, 2, 3, 4, 5, 6, 7, 8, 9, 10, 11, 12]"

text \<open>
  Four activities for the sort: two rated 4, one without a rating and one rated 0; two
  with a price amount, one without a price and one with a price without an amount. No
  rating or amount of theirs is a string, so the reading of strings is not used.
\<close>

definition no_strings :: "string \<Rightarrow> pyfloat option" where
  "no_strings s = None"

definition act_a :: activity where
  "act_a = \<lparr>name = Some ''A'', shortDescription = None, rating = Some (JNum (Fin 4)),
     price = Some \<lparr>amount = Some (JNum (Fin 30)), currencyCode = Some ''EUR''\<rparr>\<rparr>"

definition act_b :: activity where
  "act_b = \<lparr>name = Some ''B'', shortDescription = None, rating = None, price = None\<rparr>"

definition act_c :: activity where
  "act_c = \<lparr>name = Some ''C'', shortDescription = None, rating = Some (JNum (Fin 4)),
     price = Some \<lparr>amount = None, currencyCode = None\<rparr>\<rparr>"

definition act_d :: activity where
  "act_d = \<lparr>name = Some ''D'', shortDescription = None, rating = Some (JNum (Fin 0)),
     price = Some \<lparr>amount = Some (JNum (Fin 10)), currencyCode = Some ''EUR''\<rparr>\<rparr>"





section \<open>Properties of the weather classification\<close>







text \<open>
  C2. \<^verbatim>\<open>preset_categories\<close> is the decision table of three branches in priority
  order: with rain the rain list, whatever the temperature; without rain and a
  temperature below 15 the cold list; without rain and a temperature of at least 15 the
  warm list, the value 15 itself included.
\<close>

theorem preset_categories_table:
  "preset_categories True t = [Museums, Restaurants, Historical, Sightseeing]
   \<and> (lt_f t (Fin 15) \<longrightarrow> preset_categories False t = [Museums, Historical, Tours, Sightseeing])
   \<and> (ge_f t (Fin 15) \<longrightarrow> preset_categories False t = [Wine, Historical])
   \<and> preset_categories False (Fin 15) = [Wine, Historical]"
  by (cases t) (simp_all add: preset_categories_def)

theorem preset_categories_table_witness:
  "preset_categories True (Fin 3) = [Museums, Restaurants, Historical, Sightseeing]
   \<and> lt_f (Fin (149 / 10)) (Fin 15)
   \<and> preset_categories False (Fin (149 / 10)) = [Museums, Historical, Tours, Sightseeing]
   \<and> ge_f (Fin 15) (Fin 15)
   \<and> preset_categories False (Fin 15) = [Wine, Historical]
   \<and> ge_f (Fin 20) (Fin 15)
   \<and> preset_categories False (Fin 20) = [Wine, Historical]"
  using preset_categories_table [of "Fin 3"] preset_categories_table [of "Fin (149 / 10)"]
    preset_categories_table [of "Fin 20"]
  by simp

text \<open>
  C3. Without weather samples the verdict is no rain and the temperature NaN, both from
  \<^verbatim>\<open>classify_weather\<close> and from the script's own branch for an empty table. The
  comparison of NaN with 15 is false, so \<^verbatim>\<open>preset_categories\<close> returns the warm
  list.
\<close>

theorem preset_categories_nan:
  "\<not> lt_f NaN (Fin 15)
   \<and> preset_categories False NaN = [Wine, Historical]
   \<and> classify_weather [] = Inr (False, NaN)
   \<and> weather_verdict [] = Inr (False, NaN)"
  by (simp add: preset_categories_def classify_weather_def py_sum_bool_def weather_verdict_def)

text \<open>
  C9, as stated: any two of the three category lists are equal or disjoint as sets. The
  rain list and the warm list are different and both contain Historical.
\<close>

theorem preset_sets_overlap:
  "\<not> (set (preset_categories True (Fin 20)) = set (preset_categories False (Fin 20))
      \<or> set (preset_categories True (Fin 20)) \<inter> set (preset_categories False (Fin 20)) = {})"
  by (auto simp add: preset_categories_def)

text \<open>
  C9, amended. For every rain flag and every temperature \<^verbatim>\<open>preset_categories\<close>
  returns one of three fixed lists, and each of the three is returned. The three are
  different as sets and none is disjoint from another: the rain and the cold list share
  Museums, Historical and Sightseeing, and the warm list shares Historical with each of
  the other two.
\<close>

theorem preset_sets_relation:
  "preset_categories rain t \<in>
     {[Museums, Restaurants, Historical, Sightseeing],
      [Museums, Historical, Tours, Sightseeing],
      [Wine, Historical]}
   \<and> preset_categories True t = [Museums, Restaurants, Historical, Sightseeing]
   \<and> preset_categories False (Fin 0) = [Museums, Historical, Tours, Sightseeing]
   \<and> preset_categories False (Fin 20) = [Wine, Historical]
   \<and> distinct [set [Museums, Restaurants, Historical, Sightseeing],
        set [Museums, Historical, Tours, Sightseeing],
        set [Wine, Historical]]
   \<and> set [Museums, Restaurants, Historical, Sightseeing]
         \<inter> set [Museums, Historical, Tours, Sightseeing]
       = {Museums, Historical, Sightseeing}
   \<and> set [Museums, Restaurants, Historical, Sightseeing] \<inter> set [Wine, Historical]
       = {Historical}
   \<and> set [Museums, Historical, Tours, Sightseeing] \<inter> set [Wine, Historical]
       = {Historical}"
  by (auto simp add: preset_categories_def)

section \<open>Properties of the category filter\<close>

lemma startswith_iff: "startswith s kw \<longleftrightarrow> (\<exists>t. s = kw @ t)"
  by (induction s kw rule: startswith.induct) auto

lemma str_contains_iff: "str_contains kw s \<longleftrightarrow> (\<exists>p t. s = p @ kw @ t)"
proof (induction s)
  case Nil
  then show ?case by simp
next
  case (Cons x xs)
  show ?case
  proof
    assume "str_contains kw (x # xs)"
    then consider "startswith (x # xs) kw" | "str_contains kw xs" by auto
    then show "\<exists>p t. x # xs = p @ kw @ t"
    proof cases
      case 1
      then obtain t where "x # xs = kw @ t" by (auto simp: startswith_iff)
      then have "x # xs = [] @ kw @ t" by simp
      then show ?thesis by blast
    next
      case 2
      then obtain p t where "xs = p @ kw @ t" using Cons.IH by auto
      then have "x # xs = (x # p) @ kw @ t" by simp
      then show ?thesis by blast
    qed
  next
    assume "\<exists>p t. x # xs = p @ kw @ t"
    then obtain p t where pt: "x # xs = p @ kw @ t" by auto
    show "str_contains kw (x # xs)"
    proof (cases p)
      case Nil
      with pt have "startswith (x # xs) kw" by (auto simp: startswith_iff)
      then show ?thesis by simp
    next
      case (Cons y ys)
      with pt have "xs = ys @ kw @ t" by simp
      then have "str_contains kw xs" using Cons.IH by blast
      then show ?thesis by simp
    qed
  qed
qed

lemma py_any_map: "py_any (map P xs) \<longleftrightarrow> (\<exists>x\<in>set xs. P x)"
  by (induction xs) auto

text \<open>
  C4. For every list of activities and every keyword list, the filter keeps exactly the
  activities for which the keyword list is empty or the lower-cased text "name, one
  space, shortDescription" (an absent field read as the empty string) contains one of
  the keywords as a substring, and keeps them in the order of the input.
\<close>

theorem acts_filtered_correct:
  "acts_filtered kws acts =
     filter (\<lambda>a. kws = [] \<or>
        (\<exists>kw\<in>set kws. \<exists>p t.
           lower_str (get_or (name a) [] @ '' '' @ get_or (shortDescription a) []) = p @ kw @ t))
       acts
   \<and> subseq (acts_filtered kws acts) acts"
  by (simp add: acts_filtered_def py_any_map str_contains_iff search_text_def)

theorem acts_filtered_correct_witness:
  "acts_filtered (kw_list_of [Wine]) [vineyard_tour, city_museum] = [vineyard_tour]
   \<and> filter (\<lambda>a. kw_list_of [Wine] = [] \<or>
        (\<exists>kw\<in>set (kw_list_of [Wine]). \<exists>p t.
           lower_str (get_or (name a) [] @ '' '' @ get_or (shortDescription a) []) = p @ kw @ t))
       [vineyard_tour, city_museum] = [vineyard_tour]
   \<and> subseq [vineyard_tour] [vineyard_tour, city_museum]"
proof -
  have run: "acts_filtered (kw_list_of [Wine]) [vineyard_tour, city_museum] = [vineyard_tour]"
    by code_simp
  note inst = acts_filtered_correct [of "kw_list_of [Wine]" "[vineyard_tour, city_museum]"]
  from inst have "acts_filtered (kw_list_of [Wine]) [vineyard_tour, city_museum] =
     filter (\<lambda>a. kw_list_of [Wine] = [] \<or>
        (\<exists>kw\<in>set (kw_list_of [Wine]). \<exists>p t.
           lower_str (get_or (name a) [] @ '' '' @ get_or (shortDescription a) []) = p @ kw @ t))
       [vineyard_tour, city_museum]"
    by (rule conjunct1)
  with run have spec: "filter (\<lambda>a. kw_list_of [Wine] = [] \<or>
        (\<exists>kw\<in>set (kw_list_of [Wine]). \<exists>p t.
           lower_str (get_or (name a) [] @ '' '' @ get_or (shortDescription a) []) = p @ kw @ t))
       [vineyard_tour, city_museum] = [vineyard_tour]"
    by (simp only:)
  from inst have "subseq (acts_filtered (kw_list_of [Wine]) [vineyard_tour, city_museum])
      [vineyard_tour, city_museum]"
    by (rule conjunct2)
  with run have order: "subseq [vineyard_tour] [vineyard_tour, city_museum]"
    by (simp only:)
  from run spec order show ?thesis by (intro conjI)
qed

section \<open>Properties of the pagination\<close>

lemma ceil_div_int:
  assumes "0 < (b::int)"
  shows "- ((- a) div b) = (a + b - 1) div b"
proof -
  define q where "q = (a + b - 1) div b"
  define r where "r = (a + b - 1) mod b"
  have r: "0 \<le> r" "r < b" using assms by (simp_all add: r_def)
  have "a + b - 1 = b * q + r" by (simp add: q_def r_def)
  then have "- a = b * (- q) + (b - 1 - r)" by (simp add: algebra_simps)
  moreover have "0 \<le> b - 1 - r" "b - 1 - r < b" using r by simp_all
  ultimately have "(- a) div b = - q" by (rule int_div_pos_eq)
  then show ?thesis by (simp add: q_def)
qed

lemma ceiling_quotient:
  assumes "0 < (b::int)"
  shows "\<lceil>real n / real_of_int b\<rceil> = (int n + b - 1) div b"
proof -
  have "real n = real_of_int (int n)" by simp
  then have "\<lceil>real n / real_of_int b\<rceil> = \<lceil>real_of_int (int n) / real_of_int b\<rceil>"
    by (simp only:)
  also have "\<dots> = - (- int n div b)" by (rule ceiling_divide_eq_div)
  also have "\<dots> = (int n + b - 1) div b" using assms by (rule ceil_div_int)
  finally show ?thesis .
qed

lemma total_pages_ceiling:
  assumes ps: "0 < ps"
  shows "total_pages acts ps = Inr (max 1 \<lceil>real (length acts) / real_of_int ps\<rceil>)"
proof -
  from ps have "py_truediv (real (length acts)) ps = Inr (real (length acts) / real_of_int ps)"
    by (simp add: py_truediv_def)
  then show ?thesis by (simp only: total_pages_def sum.case)
qed

lemma total_pages_pos:
  assumes ps: "0 < ps"
  shows "total_pages acts ps = Inr (max 1 ((int (length acts) + ps - 1) div ps))"
  using total_pages_ceiling [OF ps, of acts] by (simp only: ceiling_quotient [OF ps])

lemma py_slice_nonneg:
  assumes "0 \<le> i" "i \<le> j"
  shows "py_slice xs i j = take (nat j - nat i) (drop (nat i) xs)"
proof -
  have "take (min (nat j) (length xs) - min (nat i) (length xs)) (drop (min (nat i) (length xs)) xs)
        = take (nat j - nat i) (drop (nat i) xs)"
  proof (cases "nat i \<le> length xs")
    case True
    then have "min (nat i) (length xs) = nat i" by simp
    moreover have "take (min (nat j) (length xs) - nat i) (drop (nat i) xs)
       = take (nat j - nat i) (drop (nat i) xs)"
      by (cases "nat j \<le> length xs") (simp_all add: min_def)
    ultimately show ?thesis by simp
  next
    case False
    then show ?thesis by simp
  qed
  then show ?thesis using assms by (simp add: py_slice_def slice_index_def Let_def)
qed

lemma page_window:
  assumes ps: "0 < ps" and pg: "1 \<le> pg"
  shows "py_slice xs ((pg - 1) * ps) (pg * ps) = take (nat ps) (drop (nat ((pg - 1) * ps)) xs)"
proof -
  have lo: "0 \<le> (pg - 1) * ps" using ps pg by simp
  have "pg * ps = (pg - 1) * ps + ps" by (simp add: algebra_simps)
  then have hi: "(pg - 1) * ps \<le> pg * ps" and diff: "nat (pg * ps) - nat ((pg - 1) * ps) = nat ps"
    using ps lo by simp_all
  show ?thesis using py_slice_nonneg [OF lo hi, of xs] by (simp only: diff)
qed

lemma paginate_pos:
  assumes ps: "0 < ps"
    and pages: "pages = max 1 ((int (length acts) + ps - 1) div ps)"
    and pg: "pg = max 1 (min req pages)"
  shows "paginate acts ps req = Inr (pages, pg, take (nat ps) (drop (nat ((pg - 1) * ps)) acts))"
proof -
  have "1 \<le> pg" using pg by simp
  then have win: "py_slice acts ((pg - 1) * ps) (pg * ps)
      = take (nat ps) (drop (nat ((pg - 1) * ps)) acts)"
    using ps by (simp only: page_window)
  have "total_pages acts ps = Inr pages" using total_pages_pos [OF ps, of acts] pages by simp
  then have "paginate acts ps req
      = Inr (pages, max 1 (min req pages),
             py_slice acts ((max 1 (min req pages) - 1) * ps) (max 1 (min req pages) * ps))"
    by (simp add: paginate_def Let_def)
  then show ?thesis using win pg by simp
qed

text \<open>
  C6. For every list, every positive page size (so for 5, 10 and 20) and every integer
  requested page, \<^verbatim>\<open>paginate\<close> returns without an exception: the number of pages is
  \<open>max 1 (ceiling (count / page_size))\<close>, the page is the requested one clamped to
  \<open>1 .. pages\<close>, and the items are the slice that starts at \<open>(page - 1) * page_size\<close>
  and has \<open>page_size\<close> positions; the slice of the empty list is empty.
\<close>

theorem paginate_correct:
  assumes ps: "0 < ps"
    and pages: "pages = max 1 \<lceil>real (length acts) / real_of_int ps\<rceil>"
    and pg: "pg = (if req < 1 then 1 else if pages < req then pages else req)"
  shows "paginate acts ps req = Inr (pages, pg, take (nat ps) (drop (nat ((pg - 1) * ps)) acts))
     \<and> pages = max 1 ((int (length acts) + ps - 1) div ps)
     \<and> 1 \<le> pg \<and> pg \<le> pages
     \<and> (acts = [] \<longrightarrow> page_slice acts ps req = [])"
proof -
  have pages': "pages = max 1 ((int (length acts) + ps - 1) div ps)"
    using pages by (simp only: ceiling_quotient [OF ps])
  have one: "1 \<le> pages" using pages' by simp
  have pg': "pg = max 1 (min req pages)" using pg one by auto
  have run: "paginate acts ps req
      = Inr (pages, pg, take (nat ps) (drop (nat ((pg - 1) * ps)) acts))"
    using ps pages' pg' by (rule paginate_pos)
  have range: "1 \<le> pg \<and> pg \<le> pages" using pg one by auto
  have items: "page_slice acts ps req = take (nat ps) (drop (nat ((pg - 1) * ps)) acts)"
    by (simp add: page_slice_def run)
  have empty: "acts = [] \<longrightarrow> page_slice acts ps req = []"
  proof
    assume "acts = []"
    then have "take (nat ps) (drop (nat ((pg - 1) * ps)) acts) = []" by simp
    with items show "page_slice acts ps req = []" by (simp only:)
  qed
  from run pages' range empty show ?thesis by blast
qed

theorem paginate_correct_witness:
  "(0::int) < 5
   \<and> paginate twelve 5 7 = Inr (3, 3, [11, 12])
   \<and> paginate twelve 5 0 = Inr (3, 1, [1, 2, 3, 4, 5])
   \<and> paginate ([] :: nat list) 5 (- 2) = Inr (1, 1, [])
   \<and> page_slice ([] :: nat list) 5 (- 2) = []"
proof -
  have h1: "(0::int) < 5" by simp
  have a2: "(3::int) = max 1 \<lceil>real (length twelve) / real_of_int 5\<rceil>"
    by (simp add: twelve_def)
  have a3: "(3::int) = (if (7::int) < 1 then 1 else if (3::int) < 7 then 3 else 7)" by simp
  have b3: "(1::int) = (if (0::int) < 1 then 1 else if (3::int) < 0 then 3 else 0)" by simp
  have c2: "(1::int) = max 1 \<lceil>real (length ([] :: nat list)) / real_of_int 5\<rceil>" by simp
  have c3: "(1::int) = (if (- 2::int) < 1 then 1 else if (1::int) < - 2 then 1 else - 2)" by simp
  from paginate_correct [OF h1 a2 a3] have a: "paginate twelve 5 7 = Inr (3, 3, [11, 12])"
    by (simp add: twelve_def)
  from paginate_correct [OF h1 a2 b3] have b: "paginate twelve 5 0 = Inr (3, 1, [1, 2, 3, 4, 5])"
    by (simp add: twelve_def)
  from paginate_correct [OF h1 c2 c3]
  have c: "paginate ([] :: nat list) 5 (- 2) = Inr (1, 1, [])
      \<and> page_slice ([] :: nat list) 5 (- 2) = []"
    by simp
  from h1 a b c show ?thesis by blast
qed

lemma upto_as_upt: "[1..int n] = map (\<lambda>i. int (Suc i)) [0..<n]"
proof (induction n)
  case 0
  then show ?case by simp
next
  case (Suc n)
  have "[1..int (Suc n)] = [1..int n] @ [int (Suc n)]"
    using upto_rec2 [of 1 "int (Suc n)"] by simp
  then show ?case using Suc.IH by simp
qed

lemma concat_windows: "concat (map (\<lambda>i. take k (drop (i * k) xs)) [0..<n]) = take (n * k) xs"
proof (induction n)
  case 0
  then show ?case by simp
next
  case (Suc n)
  have "take (n * k + k) xs = take (n * k) xs @ take k (drop (n * k) xs)"
    by (rule take_add)
  then show ?case using Suc.IH by (simp add: add.commute)
qed

lemma pages_reach_end:
  assumes ps: "0 < ps" and pages: "pages = max 1 ((int (length acts) + ps - 1) div ps)"
  shows "length acts \<le> nat pages * nat ps"
proof -
  define x where "x = int (length acts) + ps - 1"
  have "x = (x div ps) * ps + x mod ps" by simp
  moreover have "x mod ps < ps" using ps by simp
  ultimately have "x - ps < (x div ps) * ps" by linarith
  then have "int (length acts) \<le> (x div ps) * ps" by (simp add: x_def)
  moreover have "(x div ps) * ps \<le> pages * ps"
    using ps pages by (simp add: x_def)
  ultimately have "int (length acts) \<le> pages * ps" by linarith
  moreover have "0 \<le> pages" using pages by simp
  moreover from this have "nat pages * nat ps = nat (pages * ps)" by (simp add: nat_mult_distrib)
  ultimately show ?thesis by linarith
qed

text \<open>
  C7. For every list and every positive page size, the slices of the pages 1 to
  \<open>pages\<close>, one after the other, are the list itself: each position of the list is on
  exactly one page. A request for a page in that range shows that page.
\<close>

theorem pages_cover:
  assumes ps: "0 < ps"
    and pages: "pages = max 1 \<lceil>real (length acts) / real_of_int ps\<rceil>"
  shows "concat (map (page_slice acts ps) [1..pages]) = acts
     \<and> (\<Sum>p\<leftarrow>[1..pages]. length (page_slice acts ps p)) = length acts
     \<and> (\<forall>p\<in>set [1..pages].
           paginate acts ps p = Inr (pages, p, page_slice acts ps p))"
proof -
  have pages': "pages = max 1 ((int (length acts) + ps - 1) div ps)"
    using pages by (simp only: ceiling_quotient [OF ps])
  have one: "1 \<le> pages" using pages' by simp
  have each: "paginate acts ps p = Inr (pages, p, take (nat ps) (drop (nat ((p - 1) * ps)) acts))"
    if "p \<in> set [1..pages]" for p
  proof -
    from that have "p = max 1 (min p pages)" by auto
    with ps pages' show ?thesis by (rule paginate_pos)
  qed
  then have slice: "page_slice acts ps p = take (nat ps) (drop (nat ((p - 1) * ps)) acts)"
    if "p \<in> set [1..pages]" for p
    using that by (simp add: page_slice_def)
  have shown: "\<forall>p\<in>set [1..pages]. paginate acts ps p = Inr (pages, p, page_slice acts ps p)"
    using each slice by simp
  have idx: "[1..pages] = map (\<lambda>i. int (Suc i)) [0..<nat pages]"
    using upto_as_upt [of "nat pages"] one by simp
  have win: "page_slice acts ps (int (Suc i)) = take (nat ps) (drop (i * nat ps) acts)"
    if "i < nat pages" for i
  proof -
    from that have "int (Suc i) \<in> set [1..pages]" by auto
    then have "page_slice acts ps (int (Suc i))
        = take (nat ps) (drop (nat ((int (Suc i) - 1) * ps)) acts)"
      by (rule slice)
    moreover have "nat ((int (Suc i) - 1) * ps) = i * nat ps"
      using ps by (simp add: nat_mult_distrib)
    ultimately show ?thesis by simp
  qed
  have "map (page_slice acts ps) (map (\<lambda>i. int (Suc i)) [0..<nat pages])
      = map (\<lambda>i. take (nat ps) (drop (i * nat ps) acts)) [0..<nat pages]"
    using win by simp
  then have "map (page_slice acts ps) [1..pages]
      = map (\<lambda>i. take (nat ps) (drop (i * nat ps) acts)) [0..<nat pages]"
    by (simp only: idx)
  then have "concat (map (page_slice acts ps) [1..pages]) = take (nat pages * nat ps) acts"
    by (simp only: concat_windows)
  then have cover: "concat (map (page_slice acts ps) [1..pages]) = acts"
    using pages_reach_end [OF ps pages'] by simp
  have "(\<Sum>p\<leftarrow>[1..pages]. length (page_slice acts ps p))
      = length (concat (map (page_slice acts ps) [1..pages]))"
    by (simp add: length_concat comp_def)
  then have count: "(\<Sum>p\<leftarrow>[1..pages]. length (page_slice acts ps p)) = length acts"
    by (simp only: cover)
  from cover count shown show ?thesis by blast
qed

theorem pages_cover_witness:
  "(0::int) < 5
   \<and> concat (map (page_slice twelve 5) [1..3]) = twelve
   \<and> map (page_slice twelve 5) [1..3] = [[1, 2, 3, 4, 5], [6, 7, 8, 9, 10], [11, 12]]
   \<and> paginate twelve 5 3 = Inr (3, 3, [11, 12])"
proof -
  have h1: "(0::int) < 5" by simp
  have h2: "(3::int) = max 1 \<lceil>real (length twelve) / real_of_int 5\<rceil>"
    by (simp add: twelve_def)
  note inst = pages_cover [OF h1 h2]
  have list: "[1..3::int] = [1, 2, 3]" by (simp add: upto.simps)
  from inst have cover: "concat (map (page_slice twelve 5) [1..3]) = twelve" by blast
  from inst have p1: "paginate twelve 5 1 = Inr (3, 1, page_slice twelve 5 1)"
    and p2: "paginate twelve 5 2 = Inr (3, 2, page_slice twelve 5 2)"
    and p3: "paginate twelve 5 3 = Inr (3, 3, page_slice twelve 5 3)"
    by (simp_all add: list)
  have s1: "page_slice twelve 5 1 = [1, 2, 3, 4, 5]"
    and s2: "page_slice twelve 5 2 = [6, 7, 8, 9, 10]"
    and s3: "page_slice twelve 5 3 = [11, 12]"
    by code_simp+
  from h1 cover p3 s1 s2 s3 show ?thesis by (simp add: list)
qed

section \<open>Properties of the sort\<close>

lemma lt_f_irrefl: "\<not> lt_f a a"
  by (cases a) simp_all

lemma lt_f_asym: "lt_f a b \<Longrightarrow> \<not> lt_f b a"
  by (cases a; cases b) simp_all

lemma not_lt_f_trans:
  "b \<noteq> NaN \<Longrightarrow> \<not> lt_f b a \<Longrightarrow> \<not> lt_f c b \<Longrightarrow> \<not> lt_f c a"
  by (cases a; cases b; cases c) simp_all

lemma set_insort_lt: "set (insort_lt x ys) = insert x (set ys)"
  by (induction ys) auto

lemma mset_insort_lt: "mset (insort_lt x ys) = add_mset x (mset ys)"
  by (induction ys) simp_all

lemma mset_stable_sort: "mset (stable_sort kxs) = mset kxs"
  by (induction kxs) (simp_all add: stable_sort_def mset_insort_lt)

lemma set_stable_sort: "set (stable_sort kxs) = set kxs"
  using mset_stable_sort [of kxs] by (metis set_mset_mset)

lemma filter_insort_lt:
  "filter (\<lambda>z. fst z = c) (insort_lt x ys) =
     (if fst x = c then x # filter (\<lambda>z. fst z = c) ys else filter (\<lambda>z. fst z = c) ys)"
proof (induction ys)
  case Nil
  then show ?case by simp
next
  case (Cons y ys)
  show ?case
  proof (cases "lt_f (fst y) (fst x)")
    case True
    then have "fst y \<noteq> fst x" using lt_f_irrefl [of "fst x"] by auto
    with True Cons.IH show ?thesis by auto
  next
    case False
    then show ?thesis by simp
  qed
qed

lemma filter_stable_sort:
  "filter (\<lambda>z. fst z = c) (stable_sort kxs) = filter (\<lambda>z. fst z = c) kxs"
proof (induction kxs)
  case Nil
  then show ?case by (simp add: stable_sort_def)
next
  case (Cons x kxs)
  have "stable_sort (x # kxs) = insort_lt x (stable_sort kxs)" by (simp add: stable_sort_def)
  then show ?case using Cons.IH by (simp add: filter_insort_lt)
qed

lemma sorted_insort_lt:
  assumes "sorted_wrt (\<lambda>a b. \<not> lt_f (fst b) (fst a)) ys" and "\<forall>y\<in>set ys. fst y \<noteq> NaN"
  shows "sorted_wrt (\<lambda>a b. \<not> lt_f (fst b) (fst a)) (insort_lt x ys)"
  using assms
proof (induction ys)
  case Nil
  then show ?case by simp
next
  case (Cons y ys)
  show ?case
  proof (cases "lt_f (fst y) (fst x)")
    case True
    then have "\<not> lt_f (fst x) (fst y)" by (rule lt_f_asym)
    with True Cons show ?thesis by (auto simp add: set_insort_lt)
  next
    case False
    have "\<not> lt_f (fst z) (fst x)" if "z \<in> set ys" for z
    proof -
      from that Cons.prems have "\<not> lt_f (fst z) (fst y)" and "fst y \<noteq> NaN" by auto
      with False show ?thesis using not_lt_f_trans by blast
    qed
    with False Cons.prems show ?thesis by auto
  qed
qed

lemma sorted_stable_sort:
  assumes "\<forall>y\<in>set kxs. fst y \<noteq> NaN"
  shows "sorted_wrt (\<lambda>a b. \<not> lt_f (fst b) (fst a)) (stable_sort kxs)"
  using assms
proof (induction kxs)
  case Nil
  then show ?case by (simp add: stable_sort_def)
next
  case (Cons x kxs)
  have step: "stable_sort (x # kxs) = insort_lt x (stable_sort kxs)" by (simp add: stable_sort_def)
  have "sorted_wrt (\<lambda>a b. \<not> lt_f (fst b) (fst a)) (stable_sort kxs)" using Cons by simp
  moreover have "\<forall>y\<in>set (stable_sort kxs). fst y \<noteq> NaN"
    using Cons.prems by (simp add: set_stable_sort)
  ultimately show ?case unfolding step by (rule sorted_insort_lt)
qed

lemma keyed_Inr:
  assumes "\<forall>x\<in>set xs. \<exists>k. key x = Inr k"
  shows "keyed key xs = Inr (map (\<lambda>x. (projr (key x), x)) xs)"
  using assms by (induction xs) auto

lemma keyed_Inl:
  assumes "keyed key xs = Inl e"
  shows "\<exists>x\<in>set xs. key x = Inl e"
  using assms by (induction xs) (auto split: sum.splits)

lemma filter_sorted_pairs:
  "filter (\<lambda>z. fst z = c) (if rv then rev (stable_sort (rev kxs)) else stable_sort kxs)
     = filter (\<lambda>z. fst z = c) kxs"
proof (cases rv)
  case True
  have "filter (\<lambda>z. fst z = c) (rev (stable_sort (rev kxs)))
      = rev (filter (\<lambda>z. fst z = c) (stable_sort (rev kxs)))"
    by (simp only: rev_filter)
  also have "\<dots> = rev (filter (\<lambda>z. fst z = c) (rev kxs))"
    by (simp only: filter_stable_sort)
  also have "\<dots> = filter (\<lambda>z. fst z = c) kxs"
    by (simp add: rev_filter)
  finally show ?thesis using True by simp
next
  case False
  then show ?thesis by (simp add: filter_stable_sort)
qed

lemma mset_sorted_pairs:
  "mset (if rv then rev (stable_sort (rev kxs)) else stable_sort kxs) = mset kxs"
  by (simp add: mset_stable_sort)

lemma sorted_sorted_pairs:
  assumes "\<forall>y\<in>set kxs. fst y \<noteq> NaN"
  shows "sorted_wrt (\<lambda>a b. if rv then \<not> lt_f (fst a) (fst b) else \<not> lt_f (fst b) (fst a))
           (if rv then rev (stable_sort (rev kxs)) else stable_sort kxs)"
proof (cases rv)
  case True
  have "sorted_wrt (\<lambda>a b. \<not> lt_f (fst b) (fst a)) (stable_sort (rev kxs))"
    using assms by (intro sorted_stable_sort) simp
  then have "sorted_wrt (\<lambda>a b. \<not> lt_f (fst a) (fst b)) (rev (stable_sort (rev kxs)))"
    by (simp add: sorted_wrt_rev)
  then show ?thesis using True by simp
next
  case False
  then show ?thesis using sorted_stable_sort [OF assms] by simp
qed

lemma list_sort_stable:
  assumes ok: "\<forall>x\<in>set xs. \<exists>k. key x = Inr k"
  shows "\<exists>ys. list_sort key rv xs = Inr ys \<and> mset ys = mset xs
           \<and> (\<forall>c. filter (\<lambda>x. key x = Inr c) ys = filter (\<lambda>x. key x = Inr c) xs)"
proof -
  define f where "f = (\<lambda>x. (projr (key x), x))"
  define dec where "dec = map f xs"
  define S where "S = (if rv then rev (stable_sort (rev dec)) else stable_sort dec)"
  have keyed: "keyed key xs = Inr dec"
    using keyed_Inr [OF ok] by (simp add: dec_def f_def)
  then have run: "list_sort key rv xs = Inr (map snd S)"
    by (simp add: list_sort_def S_def)
  have mS: "mset S = mset dec" unfolding S_def by (rule mset_sorted_pairs)
  then have "mset (map snd S) = mset (map snd dec)" by (metis mset_map)
  moreover have "map snd dec = xs" by (simp add: dec_def f_def comp_def)
  ultimately have perm: "mset (map snd S) = mset xs" by simp
  have stable: "filter (\<lambda>x. key x = Inr c) (map snd S) = filter (\<lambda>x. key x = Inr c) xs" for c
  proof -
    have setS: "set S = set dec" using mS by (metis set_mset_mset)
    have pair: "(key (snd p) = Inr c) = (fst p = c)" if "p \<in> set dec" for p
    proof -
      from that obtain x where x: "x \<in> set xs" "p = f x" by (auto simp: dec_def)
      with ok obtain k where "key x = Inr k" by auto
      with x show ?thesis by (simp add: f_def)
    qed
    have "filter (\<lambda>x. key x = Inr c) (map snd S) = map snd (filter (\<lambda>p. key (snd p) = Inr c) S)"
      by (simp add: filter_map comp_def)
    also have "filter (\<lambda>p. key (snd p) = Inr c) S = filter (\<lambda>p. fst p = c) S"
      using pair setS by (intro filter_cong) auto
    also have "\<dots> = filter (\<lambda>p. fst p = c) dec"
      unfolding S_def by (rule filter_sorted_pairs)
    also have "\<dots> = filter (\<lambda>p. key (snd p) = Inr c) dec"
      using pair by (intro filter_cong) auto
    also have "map snd \<dots> = filter (\<lambda>x. key x = Inr c) (map snd dec)"
      by (simp add: filter_map comp_def)
    also have "map snd dec = xs" by (simp add: dec_def f_def comp_def)
    finally show ?thesis .
  qed
  from run perm stable show ?thesis by blast
qed

lemma list_sort_sorted:
  assumes ok: "\<forall>x\<in>set xs. \<exists>k. key x = Inr k \<and> k \<noteq> NaN"
    and run: "list_sort key rv xs = Inr ys"
  shows "sorted_wrt (\<lambda>a b. if rv then \<not> lt_f (projr (key a)) (projr (key b))
                            else \<not> lt_f (projr (key b)) (projr (key a))) ys"
proof -
  define f where "f = (\<lambda>x. (projr (key x), x))"
  define dec where "dec = map f xs"
  define S where "S = (if rv then rev (stable_sort (rev dec)) else stable_sort dec)"
  have ok': "\<forall>x\<in>set xs. \<exists>k. key x = Inr k" using ok by blast
  have keyed: "keyed key xs = Inr dec"
    using keyed_Inr [OF ok'] by (simp add: dec_def f_def)
  then have ys: "ys = map snd S" using run by (simp add: list_sort_def S_def)
  have nonan: "\<forall>p\<in>set dec. fst p \<noteq> NaN" using ok by (auto simp: dec_def f_def)
  have setS: "set S = set dec"
    using mset_sorted_pairs [of rv dec] unfolding S_def by (metis set_mset_mset)
  have "f (snd p) = p" if "p \<in> set S" for p
    using that setS by (auto simp: dec_def f_def)
  then have "map f (map snd S) = S" by (simp add: map_idI)
  then have S: "S = map f ys" using ys by simp
  have "sorted_wrt (\<lambda>a b. if rv then \<not> lt_f (fst a) (fst b) else \<not> lt_f (fst b) (fst a)) S"
    unfolding S_def using nonan by (rule sorted_sorted_pairs)
  then have "sorted_wrt (\<lambda>a b. if rv then \<not> lt_f (fst (f a)) (fst (f b))
                                else \<not> lt_f (fst (f b)) (fst (f a))) ys"
    unfolding S by (simp add: sorted_wrt_map)
  moreover have "fst (f a) = projr (key a)" for a by (simp add: f_def)
  ultimately show ?thesis by (simp only:)
qed

lemma sort_activities_list_sort:
  "ord \<noteq> SortNone \<Longrightarrow>
     sort_activities pf ord acts = list_sort (sort_key pf ord) (reverse_of ord) acts"
  by (simp add: sort_activities_def sort_key_def Let_def)

lemma sort_activities_props:
  assumes ord: "ord \<noteq> SortNone"
    and ok: "\<forall>a\<in>set acts. \<exists>k. sort_key pf ord a = Inr k"
  shows "\<exists>ys. sort_activities pf ord acts = Inr ys \<and> mset ys = mset acts
           \<and> (\<forall>c. filter (\<lambda>a. sort_key pf ord a = Inr c) ys
                    = filter (\<lambda>a. sort_key pf ord a = Inr c) acts)"
  using list_sort_stable [OF ok, of "reverse_of ord"]
  by (simp only: sort_activities_list_sort [OF ord])

lemma rating_key_missing: "rating a = None \<Longrightarrow> rating_key pf a = Inr (Fin (- 1))"
  by (simp add: rating_key_def get_or_def py_or_def)

lemma rating_key_falsy:
  "rating a = Some v \<Longrightarrow> \<not> truthy v \<Longrightarrow> rating_key pf a = Inr (Fin (- 1))"
  by (simp add: rating_key_def get_or_def py_or_def)

lemma price_key_missing:
  "amount (get_or (price a) empty_price) = None \<Longrightarrow> price_key pf a = Inr PInf"
  by (simp add: price_key_def get_or_def)

lemma not_lt_PInf: "k \<noteq> NaN \<Longrightarrow> \<not> lt_f k PInf \<Longrightarrow> k = PInf"
  by (cases k) simp_all

text \<open>
  C5. Without a sort order the list is left as it is. With one, and when the key of
  every activity is a float other than NaN (every rating and amount that is present can
  be read as a number), the sort returns a permutation of the list that is ordered by
  the key, upwards or downwards, and keeps activities of equal keys in their input
  order in both directions. The key of a rating sort is the rating, and \<open>- 1\<close> when
  there is none; the key of a price sort is the amount, and \<open>+infinity\<close> when there is
  no price or no amount. So upwards no activity with a rating key above \<open>- 1\<close> comes
  before one without a rating and downwards none comes after one; in a price sort
  upwards only keys of \<open>+infinity\<close> follow an activity without an amount, and downwards
  only such keys precede it.
\<close>

theorem sort_activities_stable:
  assumes ord: "ord \<noteq> SortNone"
    and ok: "\<forall>a\<in>set acts. \<exists>k. sort_key pf ord a = Inr k \<and> k \<noteq> NaN"
  shows "sort_activities pf SortNone acts = Inr acts
     \<and> sort_key pf ord = (if ord = RatingDown \<or> ord = RatingUp then rating_key pf else price_key pf)
     \<and> (rating b = None \<longrightarrow> rating_key pf b = Inr (Fin (- 1)))
     \<and> (rating b = Some (JNum r) \<and> r \<noteq> Fin 0 \<longrightarrow> rating_key pf b = Inr r)
     \<and> (amount (get_or (price b) empty_price) = None \<longrightarrow> price_key pf b = Inr PInf)
     \<and> (amount (get_or (price b) empty_price) = Some (JNum x) \<longrightarrow> price_key pf b = Inr x)
     \<and> (\<exists>ys. sort_activities pf ord acts = Inr ys
          \<and> mset ys = mset acts
          \<and> sorted_wrt (\<lambda>a b. if reverse_of ord
                 then \<not> lt_f (projr (sort_key pf ord a)) (projr (sort_key pf ord b))
                 else \<not> lt_f (projr (sort_key pf ord b)) (projr (sort_key pf ord a))) ys
          \<and> (\<forall>c. filter (\<lambda>a. sort_key pf ord a = Inr c) ys
                   = filter (\<lambda>a. sort_key pf ord a = Inr c) acts)
          \<and> (ord = RatingUp \<longrightarrow>
                sorted_wrt (\<lambda>a b. rating b = None \<longrightarrow>
                   \<not> lt_f (Fin (- 1)) (projr (rating_key pf a))) ys)
          \<and> (ord = RatingDown \<longrightarrow>
                sorted_wrt (\<lambda>a b. rating a = None \<longrightarrow>
                   \<not> lt_f (Fin (- 1)) (projr (rating_key pf b))) ys)
          \<and> (ord = PriceUp \<longrightarrow>
                sorted_wrt (\<lambda>a b. amount (get_or (price a) empty_price) = None \<longrightarrow>
                   price_key pf b = Inr PInf) ys)
          \<and> (ord = PriceDown \<longrightarrow>
                sorted_wrt (\<lambda>a b. amount (get_or (price b) empty_price) = None \<longrightarrow>
                   price_key pf a = Inr PInf) ys))"
proof -
  have none: "sort_activities pf SortNone acts = Inr acts"
    by (simp add: sort_activities_def)
  have key: "sort_key pf ord
      = (if ord = RatingDown \<or> ord = RatingUp then rating_key pf else price_key pf)"
    by (cases ord) (simp_all add: sort_key_def)
  have k1: "rating b = None \<longrightarrow> rating_key pf b = Inr (Fin (- 1))"
    by (simp add: rating_key_missing)
  have k2: "rating b = Some (JNum r) \<and> r \<noteq> Fin 0 \<longrightarrow> rating_key pf b = Inr r"
    by (simp add: rating_key_def get_or_def py_or_def)
  have k3: "amount (get_or (price b) empty_price) = None \<longrightarrow> price_key pf b = Inr PInf"
    by (simp add: price_key_missing)
  have k4: "amount (get_or (price b) empty_price) = Some (JNum x) \<longrightarrow> price_key pf b = Inr x"
    by (simp add: price_key_def get_or_def)
  have ok': "\<forall>a\<in>set acts. \<exists>k. sort_key pf ord a = Inr k" using ok by blast
  from sort_activities_props [OF ord ok'] obtain ys where
    run: "sort_activities pf ord acts = Inr ys" and perm: "mset ys = mset acts"
    and stable: "\<forall>c. filter (\<lambda>a. sort_key pf ord a = Inr c) ys
                    = filter (\<lambda>a. sort_key pf ord a = Inr c) acts"
    by blast
  from run have "list_sort (sort_key pf ord) (reverse_of ord) acts = Inr ys"
    by (simp only: sort_activities_list_sort [OF ord])
  with ok have sorted: "sorted_wrt (\<lambda>a b. if reverse_of ord
         then \<not> lt_f (projr (sort_key pf ord a)) (projr (sort_key pf ord b))
         else \<not> lt_f (projr (sort_key pf ord b)) (projr (sort_key pf ord a))) ys"
    by (rule list_sort_sorted)
  have set_ys: "set ys = set acts" using perm by (metis set_mset_mset)
  have up: "sorted_wrt (\<lambda>a b. \<not> lt_f (projr (sort_key pf ord b)) (projr (sort_key pf ord a))) ys"
    if "\<not> reverse_of ord"
    using sorted that by simp
  have down: "sorted_wrt (\<lambda>a b. \<not> lt_f (projr (sort_key pf ord a)) (projr (sort_key pf ord b))) ys"
    if "reverse_of ord"
    using sorted that by simp
  have p1: "ord = RatingUp \<longrightarrow>
      sorted_wrt (\<lambda>a b. rating b = None \<longrightarrow> \<not> lt_f (Fin (- 1)) (projr (rating_key pf a))) ys"
  proof
    assume o: "ord = RatingUp"
    then have s: "sorted_wrt (\<lambda>a b. \<not> lt_f (projr (rating_key pf b)) (projr (rating_key pf a))) ys"
      using up by (simp add: sort_key_def)
    show "sorted_wrt (\<lambda>a b. rating b = None \<longrightarrow>
        \<not> lt_f (Fin (- 1)) (projr (rating_key pf a))) ys"
    proof (rule sorted_wrt_mono_rel [OF _ s])
      fix a b
      assume "\<not> lt_f (projr (rating_key pf b)) (projr (rating_key pf a))"
      then show "rating b = None \<longrightarrow> \<not> lt_f (Fin (- 1)) (projr (rating_key pf a))"
        by (auto simp add: rating_key_missing)
    qed
  qed
  have p2: "ord = RatingDown \<longrightarrow>
      sorted_wrt (\<lambda>a b. rating a = None \<longrightarrow> \<not> lt_f (Fin (- 1)) (projr (rating_key pf b))) ys"
  proof
    assume o: "ord = RatingDown"
    then have s: "sorted_wrt (\<lambda>a b. \<not> lt_f (projr (rating_key pf a)) (projr (rating_key pf b))) ys"
      using down by (simp add: sort_key_def)
    show "sorted_wrt (\<lambda>a b. rating a = None \<longrightarrow>
        \<not> lt_f (Fin (- 1)) (projr (rating_key pf b))) ys"
    proof (rule sorted_wrt_mono_rel [OF _ s])
      fix a b
      assume "\<not> lt_f (projr (rating_key pf a)) (projr (rating_key pf b))"
      then show "rating a = None \<longrightarrow> \<not> lt_f (Fin (- 1)) (projr (rating_key pf b))"
        by (auto simp add: rating_key_missing)
    qed
  qed
  have inf: "price_key pf a = Inr PInf"
    if "ord = PriceUp \<or> ord = PriceDown" "a \<in> set ys" "\<not> lt_f (projr (price_key pf a)) PInf"
    for a
  proof -
    from that(1) have "sort_key pf ord = price_key pf" by (auto simp add: sort_key_def)
    with that(2) ok set_ys obtain k where k: "price_key pf a = Inr k" "k \<noteq> NaN"
      by auto
    with that(3) have "k = PInf" by (simp add: not_lt_PInf)
    with k show ?thesis by simp
  qed
  have p3: "ord = PriceUp \<longrightarrow>
      sorted_wrt (\<lambda>a b. amount (get_or (price a) empty_price) = None \<longrightarrow>
         price_key pf b = Inr PInf) ys"
  proof
    assume o: "ord = PriceUp"
    then have s: "sorted_wrt (\<lambda>a b. \<not> lt_f (projr (price_key pf b)) (projr (price_key pf a))) ys"
      using up by (simp add: sort_key_def)
    show "sorted_wrt (\<lambda>a b. amount (get_or (price a) empty_price) = None \<longrightarrow>
        price_key pf b = Inr PInf) ys"
    proof (rule sorted_wrt_mono_rel [OF _ s])
      fix a b
      assume b: "b \<in> set ys"
        and le: "\<not> lt_f (projr (price_key pf b)) (projr (price_key pf a))"
      show "amount (get_or (price a) empty_price) = None \<longrightarrow> price_key pf b = Inr PInf"
      proof
        assume "amount (get_or (price a) empty_price) = None"
        then have "price_key pf a = Inr PInf" by (rule price_key_missing)
        with le have "\<not> lt_f (projr (price_key pf b)) PInf" by simp
        with o b show "price_key pf b = Inr PInf" by (intro inf) simp_all
      qed
    qed
  qed
  have p4: "ord = PriceDown \<longrightarrow>
      sorted_wrt (\<lambda>a b. amount (get_or (price b) empty_price) = None \<longrightarrow>
         price_key pf a = Inr PInf) ys"
  proof
    assume o: "ord = PriceDown"
    then have s: "sorted_wrt (\<lambda>a b. \<not> lt_f (projr (price_key pf a)) (projr (price_key pf b))) ys"
      using down by (simp add: sort_key_def)
    show "sorted_wrt (\<lambda>a b. amount (get_or (price b) empty_price) = None \<longrightarrow>
        price_key pf a = Inr PInf) ys"
    proof (rule sorted_wrt_mono_rel [OF _ s])
      fix a b
      assume a: "a \<in> set ys"
        and le: "\<not> lt_f (projr (price_key pf a)) (projr (price_key pf b))"
      show "amount (get_or (price b) empty_price) = None \<longrightarrow> price_key pf a = Inr PInf"
      proof
        assume "amount (get_or (price b) empty_price) = None"
        then have "price_key pf b = Inr PInf" by (rule price_key_missing)
        with le have "\<not> lt_f (projr (price_key pf a)) PInf" by simp
        with o a show "price_key pf a = Inr PInf" by (intro inf) simp_all
      qed
    qed
  qed
  from run perm sorted stable p1 p2 p3 p4
  have result: "\<exists>ys. sort_activities pf ord acts = Inr ys
          \<and> mset ys = mset acts
          \<and> sorted_wrt (\<lambda>a b. if reverse_of ord
                 then \<not> lt_f (projr (sort_key pf ord a)) (projr (sort_key pf ord b))
                 else \<not> lt_f (projr (sort_key pf ord b)) (projr (sort_key pf ord a))) ys
          \<and> (\<forall>c. filter (\<lambda>a. sort_key pf ord a = Inr c) ys
                   = filter (\<lambda>a. sort_key pf ord a = Inr c) acts)
          \<and> (ord = RatingUp \<longrightarrow>
                sorted_wrt (\<lambda>a b. rating b = None \<longrightarrow>
                   \<not> lt_f (Fin (- 1)) (projr (rating_key pf a))) ys)
          \<and> (ord = RatingDown \<longrightarrow>
                sorted_wrt (\<lambda>a b. rating a = None \<longrightarrow>
                   \<not> lt_f (Fin (- 1)) (projr (rating_key pf b))) ys)
          \<and> (ord = PriceUp \<longrightarrow>
                sorted_wrt (\<lambda>a b. amount (get_or (price a) empty_price) = None \<longrightarrow>
                   price_key pf b = Inr PInf) ys)
          \<and> (ord = PriceDown \<longrightarrow>
                sorted_wrt (\<lambda>a b. amount (get_or (price b) empty_price) = None \<longrightarrow>
                   price_key pf a = Inr PInf) ys)"
    by (intro exI [of _ ys] conjI)
  with none key k1 k2 k3 k4 show ?thesis by (intro conjI)
qed

theorem sort_activities_stable_witness:
  "sort_activities no_strings RatingDown [act_a, act_b, act_c, act_d]
      = Inr [act_a, act_c, act_b, act_d]
   \<and> mset [act_a, act_c, act_b, act_d] = mset [act_a, act_b, act_c, act_d]
   \<and> filter (\<lambda>a. sort_key no_strings RatingDown a = Inr (Fin 4)) [act_a, act_c, act_b, act_d]
      = filter (\<lambda>a. sort_key no_strings RatingDown a = Inr (Fin 4)) [act_a, act_b, act_c, act_d]
   \<and> filter (\<lambda>a. sort_key no_strings RatingDown a = Inr (Fin (- 1))) [act_a, act_c, act_b, act_d]
      = filter (\<lambda>a. sort_key no_strings RatingDown a = Inr (Fin (- 1))) [act_a, act_b, act_c, act_d]
   \<and> sorted_wrt (\<lambda>a b. rating a = None \<longrightarrow>
         \<not> lt_f (Fin (- 1)) (projr (rating_key no_strings b))) [act_a, act_c, act_b, act_d]
   \<and> sort_activities no_strings RatingUp [act_a, act_b, act_c, act_d]
      = Inr [act_b, act_d, act_a, act_c]
   \<and> sorted_wrt (\<lambda>a b. rating b = None \<longrightarrow>
         \<not> lt_f (Fin (- 1)) (projr (rating_key no_strings a))) [act_b, act_d, act_a, act_c]
   \<and> sort_activities no_strings PriceUp [act_a, act_b, act_c, act_d]
      = Inr [act_d, act_a, act_b, act_c]
   \<and> mset [act_d, act_a, act_b, act_c] = mset [act_a, act_b, act_c, act_d]
   \<and> filter (\<lambda>a. sort_key no_strings PriceUp a = Inr PInf) [act_d, act_a, act_b, act_c]
      = filter (\<lambda>a. sort_key no_strings PriceUp a = Inr PInf) [act_a, act_b, act_c, act_d]
   \<and> sorted_wrt (\<lambda>a b. amount (get_or (price a) empty_price) = None \<longrightarrow>
         price_key no_strings b = Inr PInf) [act_d, act_a, act_b, act_c]
   \<and> sort_activities no_strings PriceDown [act_a, act_b, act_c, act_d]
      = Inr [act_b, act_c, act_a, act_d]
   \<and> sorted_wrt (\<lambda>a b. amount (get_or (price b) empty_price) = None \<longrightarrow>
         price_key no_strings a = Inr PInf) [act_b, act_c, act_a, act_d]
   \<and> rating_key no_strings act_b = Inr (Fin (- 1))
   \<and> price_key no_strings act_b = Inr PInf
   \<and> price_key no_strings act_c = Inr PInf"
proof -
  have o1: "RatingDown \<noteq> SortNone" and o2: "RatingUp \<noteq> SortNone"
    and o3: "PriceUp \<noteq> SortNone" and o4: "PriceDown \<noteq> SortNone"
    by simp_all
  have k1: "\<forall>a\<in>set [act_a, act_b, act_c, act_d].
      \<exists>k. sort_key no_strings RatingDown a = Inr k \<and> k \<noteq> NaN"
    by (simp add: sort_key_def rating_key_def get_or_def py_or_def
        act_a_def act_b_def act_c_def act_d_def)
  have k2: "\<forall>a\<in>set [act_a, act_b, act_c, act_d].
      \<exists>k. sort_key no_strings RatingUp a = Inr k \<and> k \<noteq> NaN"
    by (simp add: sort_key_def rating_key_def get_or_def py_or_def
        act_a_def act_b_def act_c_def act_d_def)
  have k3: "\<forall>a\<in>set [act_a, act_b, act_c, act_d].
      \<exists>k. sort_key no_strings PriceUp a = Inr k \<and> k \<noteq> NaN"
    by (simp add: sort_key_def price_key_def get_or_def empty_price_def
        act_a_def act_b_def act_c_def act_d_def)
  have k4: "\<forall>a\<in>set [act_a, act_b, act_c, act_d].
      \<exists>k. sort_key no_strings PriceDown a = Inr k \<and> k \<noteq> NaN"
    by (simp add: sort_key_def price_key_def get_or_def empty_price_def
        act_a_def act_b_def act_c_def act_d_def)
  have r1: "sort_activities no_strings RatingDown [act_a, act_b, act_c, act_d]
      = Inr [act_a, act_c, act_b, act_d]"
    by code_simp
  have r2: "sort_activities no_strings RatingUp [act_a, act_b, act_c, act_d]
      = Inr [act_b, act_d, act_a, act_c]"
    by code_simp
  have r3: "sort_activities no_strings PriceUp [act_a, act_b, act_c, act_d]
      = Inr [act_d, act_a, act_b, act_c]"
    by code_simp
  have r4: "sort_activities no_strings PriceDown [act_a, act_b, act_c, act_d]
      = Inr [act_b, act_c, act_a, act_d]"
    by code_simp
  have nb: "rating act_b = None" and pb: "amount (get_or (price act_b) empty_price) = None"
    and pc: "amount (get_or (price act_c) empty_price) = None"
    by (simp_all add: act_b_def act_c_def get_or_def empty_price_def)
  note t1 = sort_activities_stable [OF o1 k1, of act_b "Fin 4" "Fin 30"]
  note t2 = sort_activities_stable [OF o2 k2, of act_b "Fin 4" "Fin 30"]
  note t3 = sort_activities_stable [OF o3 k3, of act_c "Fin 4" "Fin 30"]
  note t4 = sort_activities_stable [OF o4 k4, of act_c "Fin 4" "Fin 30"]
  from t1 nb have kb: "rating_key no_strings act_b = Inr (Fin (- 1))" by (elim conjE) simp
  from t1 pb have qb: "price_key no_strings act_b = Inr PInf" by (elim conjE) simp
  from t3 pc have qc: "price_key no_strings act_c = Inr PInf" by (elim conjE) simp
  from t1 obtain ys where
    ys: "sort_activities no_strings RatingDown [act_a, act_b, act_c, act_d] = Inr ys"
    and perm1: "mset ys = mset [act_a, act_b, act_c, act_d]"
    and stable1: "\<forall>c. filter (\<lambda>a. sort_key no_strings RatingDown a = Inr c) ys
        = filter (\<lambda>a. sort_key no_strings RatingDown a = Inr c) [act_a, act_b, act_c, act_d]"
    and place1: "RatingDown = RatingDown \<longrightarrow>
        sorted_wrt (\<lambda>a b. rating a = None \<longrightarrow>
          \<not> lt_f (Fin (- 1)) (projr (rating_key no_strings b))) ys"
    by (elim conjE exE)
  from ys r1 have ys_eq: "ys = [act_a, act_c, act_b, act_d]" by simp
  from t2 obtain us where
    us: "sort_activities no_strings RatingUp [act_a, act_b, act_c, act_d] = Inr us"
    and place2: "RatingUp = RatingUp \<longrightarrow>
        sorted_wrt (\<lambda>a b. rating b = None \<longrightarrow>
          \<not> lt_f (Fin (- 1)) (projr (rating_key no_strings a))) us"
    by (elim conjE exE)
  from us r2 have us_eq: "us = [act_b, act_d, act_a, act_c]" by simp
  from t3 obtain zs where
    zs: "sort_activities no_strings PriceUp [act_a, act_b, act_c, act_d] = Inr zs"
    and perm3: "mset zs = mset [act_a, act_b, act_c, act_d]"
    and stable3: "\<forall>c. filter (\<lambda>a. sort_key no_strings PriceUp a = Inr c) zs
        = filter (\<lambda>a. sort_key no_strings PriceUp a = Inr c) [act_a, act_b, act_c, act_d]"
    and place3: "PriceUp = PriceUp \<longrightarrow>
        sorted_wrt (\<lambda>a b. amount (get_or (price a) empty_price) = None \<longrightarrow>
          price_key no_strings b = Inr PInf) zs"
    by (elim conjE exE)
  from zs r3 have zs_eq: "zs = [act_d, act_a, act_b, act_c]" by simp
  from t4 obtain ws where
    ws: "sort_activities no_strings PriceDown [act_a, act_b, act_c, act_d] = Inr ws"
    and place4: "PriceDown = PriceDown \<longrightarrow>
        sorted_wrt (\<lambda>a b. amount (get_or (price b) empty_price) = None \<longrightarrow>
          price_key no_strings a = Inr PInf) ws"
    by (elim conjE exE)
  from ws r4 have ws_eq: "ws = [act_b, act_c, act_a, act_d]" by simp
  note s4 = stable1 [rule_format, of "Fin 4", unfolded ys_eq]
  note s1 = stable1 [rule_format, of "Fin (- 1)", unfolded ys_eq]
  note s3 = stable3 [rule_format, of PInf, unfolded zs_eq]
  note m1 = perm1 [unfolded ys_eq]
  note m3 = perm3 [unfolded zs_eq]
  note p1 = place1 [THEN mp, OF refl, unfolded ys_eq]
  note p2 = place2 [THEN mp, OF refl, unfolded us_eq]
  note p3 = place3 [THEN mp, OF refl, unfolded zs_eq]
  note p4 = place4 [THEN mp, OF refl, unfolded ws_eq]
  from r1 m1 s4 s1 p1 r2 p2 r3 m3 s3 p3 r4 p4 kb qb qc show ?thesis by (intro conjI)
qed

lemma falsy_values:
  "(\<not> truthy v) = (v \<in> {JNull, JBool False, JNum (Fin 0), JStr [], JArr [], JObj []})"
  by (cases v) auto

text \<open>
  C10. A rating that is present but false as a Python value (the number 0, the empty
  string, null, False, an empty list or dictionary) gets the sort key \<open>- 1\<close>, the key of
  an activity without a rating. A descending rating sort therefore leaves such an
  activity and one without a rating in their input order, whichever comes first, and
  in any list whose keys are floats other than NaN it keeps all activities of key
  \<open>- 1\<close> in their input order.
\<close>

theorem rating_zero_key:
  assumes falsy: "\<not> truthy v" and z: "rating z = Some v" and m: "rating m = None"
  shows "rating_key pf z = Inr (Fin (- 1))
     \<and> rating_key pf m = rating_key pf z
     \<and> v \<in> {JNull, JBool False, JNum (Fin 0), JStr [], JArr [], JObj []}
     \<and> sort_activities pf RatingDown [m, z] = Inr [m, z]
     \<and> sort_activities pf RatingDown [z, m] = Inr [z, m]
     \<and> ((\<forall>a\<in>set acts. \<exists>k. rating_key pf a = Inr k \<and> k \<noteq> NaN) \<longrightarrow>
          (\<exists>ys. sort_activities pf RatingDown acts = Inr ys
             \<and> filter (\<lambda>a. rating_key pf a = Inr (Fin (- 1))) ys
                = filter (\<lambda>a. rating_key pf a = Inr (Fin (- 1))) acts))"
proof -
  have kz: "rating_key pf z = Inr (Fin (- 1))" using z falsy by (rule rating_key_falsy)
  have km: "rating_key pf m = Inr (Fin (- 1))" using m by (rule rating_key_missing)
  have same: "rating_key pf m = rating_key pf z" using kz km by simp
  have vals: "v \<in> {JNull, JBool False, JNum (Fin 0), JStr [], JArr [], JObj []}"
    using falsy by (simp only: falsy_values)
  have mz: "sort_activities pf RatingDown [m, z] = Inr [m, z]"
    by (simp add: sort_activities_def list_sort_def stable_sort_def kz km)
  have zm: "sort_activities pf RatingDown [z, m] = Inr [z, m]"
    by (simp add: sort_activities_def list_sort_def stable_sort_def kz km)
  have gen: "(\<forall>a\<in>set acts. \<exists>k. rating_key pf a = Inr k \<and> k \<noteq> NaN) \<longrightarrow>
          (\<exists>ys. sort_activities pf RatingDown acts = Inr ys
             \<and> filter (\<lambda>a. rating_key pf a = Inr (Fin (- 1))) ys
                = filter (\<lambda>a. rating_key pf a = Inr (Fin (- 1))) acts)"
  proof
    assume "\<forall>a\<in>set acts. \<exists>k. rating_key pf a = Inr k \<and> k \<noteq> NaN"
    then have ok: "\<forall>a\<in>set acts. \<exists>k. sort_key pf RatingDown a = Inr k"
      by (auto simp add: sort_key_def)
    have "RatingDown \<noteq> SortNone" by simp
    from sort_activities_props [OF this ok] obtain ys where
      run: "sort_activities pf RatingDown acts = Inr ys"
      and stable: "\<forall>c. filter (\<lambda>a. sort_key pf RatingDown a = Inr c) ys
          = filter (\<lambda>a. sort_key pf RatingDown a = Inr c) acts"
      by (elim conjE exE)
    from stable have "filter (\<lambda>a. rating_key pf a = Inr (Fin (- 1))) ys
        = filter (\<lambda>a. rating_key pf a = Inr (Fin (- 1))) acts"
      by (simp add: sort_key_def)
    with run show "\<exists>ys. sort_activities pf RatingDown acts = Inr ys
        \<and> filter (\<lambda>a. rating_key pf a = Inr (Fin (- 1))) ys
           = filter (\<lambda>a. rating_key pf a = Inr (Fin (- 1))) acts"
      by (intro exI [of _ ys] conjI)
  qed
  from kz same vals mz zm gen show ?thesis by (intro conjI)
qed

theorem rating_zero_key_witness:
  "\<not> truthy (JNum (Fin 0))
   \<and> rating_key no_strings act_d = Inr (Fin (- 1))
   \<and> rating_key no_strings act_b = rating_key no_strings act_d
   \<and> sort_activities no_strings RatingDown [act_b, act_d] = Inr [act_b, act_d]
   \<and> sort_activities no_strings RatingDown [act_d, act_b] = Inr [act_d, act_b]
   \<and> sort_activities no_strings RatingDown [act_a, act_b, act_c, act_d]
      = Inr [act_a, act_c, act_b, act_d]
   \<and> filter (\<lambda>a. rating_key no_strings a = Inr (Fin (- 1))) [act_a, act_c, act_b, act_d]
      = filter (\<lambda>a. rating_key no_strings a = Inr (Fin (- 1))) [act_a, act_b, act_c, act_d]
   \<and> \<not> truthy (JStr [])
   \<and> rating_key no_strings (act_a\<lparr>rating := Some (JStr [])\<rparr>) = Inr (Fin (- 1))"
proof -
  have f0: "\<not> truthy (JNum (Fin 0))" and fs: "\<not> truthy (JStr [])" by simp_all
  have zd: "rating act_d = Some (JNum (Fin 0))" and mb: "rating act_b = None"
    and ze: "rating (act_a\<lparr>rating := Some (JStr [])\<rparr>) = Some (JStr [])"
    by (simp_all add: act_d_def act_b_def)
  have ok: "\<forall>a\<in>set [act_a, act_b, act_c, act_d].
      \<exists>k. rating_key no_strings a = Inr k \<and> k \<noteq> NaN"
    by (simp add: rating_key_def get_or_def py_or_def act_a_def act_b_def act_c_def act_d_def)
  have run: "sort_activities no_strings RatingDown [act_a, act_b, act_c, act_d]
      = Inr [act_a, act_c, act_b, act_d]"
    by code_simp
  note t = rating_zero_key [OF f0 zd mb, of no_strings "[act_a, act_b, act_c, act_d]"]
  note u = rating_zero_key [OF fs ze mb, of no_strings "[]"]
  from t have a1: "rating_key no_strings act_d = Inr (Fin (- 1))"
    by (elim conjE)
  from t have a2: "rating_key no_strings act_b = rating_key no_strings act_d"
    by (elim conjE)
  from t have a3: "sort_activities no_strings RatingDown [act_b, act_d] = Inr [act_b, act_d]"
    by (elim conjE)
  from t have a4: "sort_activities no_strings RatingDown [act_d, act_b] = Inr [act_d, act_b]"
    by (elim conjE)
  from t ok obtain ys where
    ys: "sort_activities no_strings RatingDown [act_a, act_b, act_c, act_d] = Inr ys"
    and keep: "filter (\<lambda>a. rating_key no_strings a = Inr (Fin (- 1))) ys
        = filter (\<lambda>a. rating_key no_strings a = Inr (Fin (- 1))) [act_a, act_b, act_c, act_d]"
    by (elim conjE impE exE)
  from ys run have "ys = [act_a, act_c, act_b, act_d]" by simp
  note a5 = keep [unfolded this]
  from u have a6: "rating_key no_strings (act_a\<lparr>rating := Some (JStr [])\<rparr>) = Inr (Fin (- 1))"
    by (elim conjE)
  from f0 a1 a2 a3 a4 run a5 fs a6 show ?thesis by (intro conjI)
qed

section \<open>Properties of the session state\<close>














end
